theory Spec2Isabelle
  imports Main "HOL-Library.Sublist" "HOL-Library.Multiset"
begin

section \<open>The message queue of MessageQueue.h\<close>

text \<open>
  \<^verbatim>\<open>test_task::MessageQueue<Message>\<close> is a bounded FIFO buffer: a \<^verbatim>\<open>std::list<Message>\<close>
  (\<^verbatim>\<open>m_queue\<close>), the bound given to the constructor (\<^verbatim>\<open>m_queueSize\<close>) and an atomic
  two-valued flag (\<^verbatim>\<open>m_state\<close>). This first part embeds each member function as a
  function from the queue before the call to the value returned and the queue after it:
  the behaviour of a call that no other call overlaps.

  \<^verbatim>\<open>std::size_t\<close> is embedded as \<open>nat\<close>: the code never does arithmetic on a size, it
  only compares \<^verbatim>\<open>m_queue.size()\<close> with \<^verbatim>\<open>m_queueSize\<close>, so no wrap-around can occur.
\<close>

subsection \<open>Data\<close>

datatype State = Running | Closed

datatype Result = Ok | Empty | Full | NotFound | Closed

datatype OperationPolicy = Blocking | NonBlocking

text \<open>The only exception of the header: \<^verbatim>\<open>std::invalid_argument\<close>, thrown by the constructor.\<close>

datatype error = invalid_argument

record 'a MessageQueue =
  m_queue :: "'a list"
  m_queueSize :: nat
  m_state :: State

text \<open>
  \<^verbatim>\<open>Message\<close> is the template parameter. \<^verbatim>\<open>Pop\<close> and \<^verbatim>\<open>Get\<close> build a message from
  nothing (\<^verbatim>\<open>Message msg;\<close> and \<^verbatim>\<open>{}\<close> in the returned pair), so the type must have a
  default constructor: the sort \<open>default\<close>, whose constant \<^const>\<open>default\<close> is the
  default-constructed value. The demo instantiates the queue with \<^verbatim>\<open>std::string\<close>, whose
  default value is the empty string.
\<close>

instantiation list :: (type) default
begin

definition default_list :: "'a list" where
  "default_list = []"

instance ..

end

text \<open>
  A call either returns, or its thread is left suspended in a condition variable's
  \<^verbatim>\<open>wait\<close> (only the \<^verbatim>\<open>Blocking\<close> policy can do so), or it executes a statement whose
  behaviour C++ leaves undefined.
\<close>

datatype 'r outcome = Returned 'r | Blocked | Undefined

subsection \<open>Constructor\<close>

definition MessageQueue :: "nat \<Rightarrow> error + 'a MessageQueue" where
  "MessageQueue queueSize =
     (if queueSize = 0 then Inl invalid_argument
      else Inr \<lparr>m_queue = [], m_queueSize = queueSize, m_state = Running\<rparr>)"

subsection \<open>Member functions\<close>

definition IsClosed :: "'a MessageQueue \<Rightarrow> bool" where
  "IsClosed q = (m_state q = State.Closed)"

text \<open>\<^verbatim>\<open>m_queue.emplace_back(...)\<close>: the message is built and linked in at the end of the list.\<close>

definition emplace_back :: "'a \<Rightarrow> 'a MessageQueue \<Rightarrow> 'a MessageQueue" where
  "emplace_back msg q = q\<lparr>m_queue := m_queue q @ [msg]\<rparr>"

text \<open>
  \<^verbatim>\<open>m_pushCv.wait(lk, pred)\<close> with the rest of \<^verbatim>\<open>Push\<close> behind it (lines 63 to 75):
  the predicate is evaluated with the lock held; when it is false the thread is suspended,
  when it is true the closed flag is read again and the message is appended if the queue
  is still running.
\<close>

definition Push_wait :: "'a \<Rightarrow> 'a MessageQueue \<Rightarrow> (Result \<times> 'a MessageQueue) outcome" where
  "Push_wait msg q =
     (if IsClosed q \<or> length (m_queue q) < m_queueSize q then
        (if IsClosed q then Returned (Result.Closed, q)
         else Returned (Ok, emplace_back msg q))
      else Blocked)"

definition Push :: "OperationPolicy \<Rightarrow> 'a \<Rightarrow> 'a MessageQueue \<Rightarrow> (Result \<times> 'a MessageQueue) outcome" where
  "Push Policy msg q =
     (if IsClosed q then Returned (Result.Closed, q)
      else if length (m_queue q) = m_queueSize q then
        (case Policy of
           NonBlocking \<Rightarrow> Returned (Full, q)
         | Blocking \<Rightarrow> Push_wait msg q)
      else Returned (Ok, emplace_back msg q))"

text \<open>
  \<^verbatim>\<open>msg = std::move(m_queue.front()); m_queue.pop_front();\<close> (lines 104 and 105). The
  source reaches these lines with a non-empty list only (both paths to them have tested
  \<^verbatim>\<open>m_queue.empty()\<close> with the lock held); on the empty list \<^verbatim>\<open>front()\<close> is undefined
  behaviour, and \<open>pop_front\<close> has no result there.
\<close>

fun pop_front :: "'a list \<Rightarrow> ('a \<times> 'a list) option" where
  "pop_front [] = None"
| "pop_front (x # xs) = Some (x, xs)"

definition Pop_take :: "'a MessageQueue \<Rightarrow> (('a \<times> Result) \<times> 'a MessageQueue) outcome" where
  "Pop_take q =
     (case pop_front (m_queue q) of
        Some (msg, rest) \<Rightarrow> Returned ((msg, Ok), q\<lparr>m_queue := rest\<rparr>)
      | None \<Rightarrow> Undefined)"

text \<open>\<^verbatim>\<open>m_popCv.wait(lk, pred)\<close> with the rest of \<^verbatim>\<open>Pop\<close> behind it (lines 97 to 110).\<close>

definition Pop_wait :: "('a::default) MessageQueue \<Rightarrow> (('a \<times> Result) \<times> 'a MessageQueue) outcome" where
  "Pop_wait q =
     (if IsClosed q \<or> m_queue q \<noteq> [] then
        (if IsClosed q then Returned ((default, Result.Closed), q)
         else Pop_take q)
      else Blocked)"

definition Pop :: "OperationPolicy \<Rightarrow> ('a::default) MessageQueue \<Rightarrow> (('a \<times> Result) \<times> 'a MessageQueue) outcome" where
  "Pop Policy q =
     (if IsClosed q then Returned ((default, Result.Closed), q)
      else if m_queue q = [] then
        (case Policy of
           NonBlocking \<Rightarrow> Returned ((default, Empty), q)
         | Blocking \<Rightarrow> Pop_wait q)
      else Pop_take q)"

text \<open>
  \<^verbatim>\<open>std::find_if(first, last, pred)\<close>: the position of the first element that satisfies
  the predicate, and the end position (the length of the list) when there is none.
\<close>

fun find_if :: "('a \<Rightarrow> bool) \<Rightarrow> 'a list \<Rightarrow> nat" where
  "find_if predicate [] = 0"
| "find_if predicate (x # xs) = (if predicate x then 0 else Suc (find_if predicate xs))"

text \<open>\<^verbatim>\<open>m_queue.erase(it)\<close>: unlinks the one element at the position.\<close>

definition erase :: "'a list \<Rightarrow> nat \<Rightarrow> 'a list" where
  "erase xs i = take i xs @ drop (Suc i) xs"

definition Get :: "('a \<Rightarrow> bool) \<Rightarrow> ('a::default) MessageQueue \<Rightarrow> ('a \<times> Result) \<times> 'a MessageQueue" where
  "Get predicate q =
     (if IsClosed q then ((default, Result.Closed), q)
      else if m_queue q = [] then ((default, Empty), q)
      else
        (let msgIt = find_if predicate (m_queue q) in
         if msgIt = length (m_queue q) then ((default, NotFound), q)
         else ((m_queue q ! msgIt, Ok), q\<lparr>m_queue := erase (m_queue q) msgIt\<rparr>)))"

definition Close :: "'a MessageQueue \<Rightarrow> Result \<times> 'a MessageQueue" where
  "Close q = (Ok, q\<lparr>m_state := State.Closed\<rparr>)"

subsection \<open>Sequences of calls\<close>

text \<open>
  The claims about "every sequence of operations" are stated over lists of calls made one
  after the other on one queue. Beside the queue, a history keeps what the callers saw:
  the messages of the \<^verbatim>\<open>Push\<close> calls that returned \<^verbatim>\<open>Ok\<close>, the messages that
  \<^verbatim>\<open>Pop\<close> returned with \<^verbatim>\<open>Ok\<close> and those that \<^verbatim>\<open>Get\<close> returned with \<^verbatim>\<open>Ok\<close>, each in call
  order. A call that blocks has changed nothing when its thread is suspended; what it does
  once woken is a later call of the list. (No call is ever undefined: lemma
  \<open>calls_defined\<close>.)
\<close>

datatype 'a operation =
    DoPush OperationPolicy 'a
  | DoPop OperationPolicy
  | DoGet "'a \<Rightarrow> bool"
  | DoClose

record 'a history =
  queue :: "'a MessageQueue"
  pushed :: "'a list"
  popped :: "'a list"
  got :: "'a list"

definition start :: "'a MessageQueue \<Rightarrow> 'a history" where
  "start q = \<lparr>queue = q, pushed = [], popped = [], got = []\<rparr>"

fun perform :: "('a::default) operation \<Rightarrow> 'a history \<Rightarrow> 'a history" where
  "perform (DoPush Policy msg) h =
     (case Push Policy msg (queue h) of
        Returned (r, q') \<Rightarrow>
          h\<lparr>queue := q', pushed := (if r = Ok then pushed h @ [msg] else pushed h)\<rparr>
      | _ \<Rightarrow> h)"
| "perform (DoPop Policy) h =
     (case Pop Policy (queue h) of
        Returned ((msg, r), q') \<Rightarrow>
          h\<lparr>queue := q', popped := (if r = Ok then popped h @ [msg] else popped h)\<rparr>
      | _ \<Rightarrow> h)"
| "perform (DoGet predicate) h =
     (case Get predicate (queue h) of
        ((msg, r), q') \<Rightarrow>
          h\<lparr>queue := q', got := (if r = Ok then got h @ [msg] else got h)\<rparr>)"
| "perform DoClose h = h\<lparr>queue := snd (Close (queue h))\<rparr>"

fun perform_all :: "('a::default) operation list \<Rightarrow> 'a history \<Rightarrow> 'a history" where
  "perform_all [] h = h"
| "perform_all (operation # operations) h = perform_all operations (perform operation h)"

section \<open>Calls that overlap: threads\<close>

text \<open>
  The member functions are made to be called from several threads at once. This part
  embeds them statement by statement: every thread has a control point in the code of the
  call it is in, and one step of the system is one thread executing the statement at its
  control point. The control points are named by the line of \<^verbatim>\<open>MessageQueue.h\<close> they stand
  before; the template parameter \<^verbatim>\<open>Policy\<close>, the message to push, the predicate and
  the local \<^verbatim>\<open>msg\<close> are carried along where the code still needs them.

  What the standard library provides is modelled as the C++ standard defines it:
  \<^item> \<^verbatim>\<open>std::unique_lock lk{m_mtx}\<close> can be executed only while no thread owns the mutex;
    leaving the block, also by \<^verbatim>\<open>return\<close>, unlocks it;
  \<^item> \<^verbatim>\<open>cv.wait(lk, pred)\<close> is \<^verbatim>\<open>while (!pred()) cv.wait(lk);\<close>: the predicate is evaluated
    with the mutex held, and \<^verbatim>\<open>cv.wait(lk)\<close> atomically unlocks the mutex and blocks the
    thread; a notified thread takes the mutex again before it returns from \<^verbatim>\<open>wait\<close>;
  \<^item> \<^verbatim>\<open>notify_one\<close> unblocks one of the threads blocked on the condition variable at
    that moment (any of them), \<^verbatim>\<open>notify_all\<close> all of them; with no thread blocked they
    do nothing, and nothing is remembered;
  \<^item> the atomic \<^verbatim>\<open>m_state\<close> is read and written in single steps, without the mutex.
  A blocked thread has no step of its own. (An implementation may also wake a thread
  spuriously, but it need not ever do so; such steps are not part of the model.)
\<close>

datatype 'a pc =
    Idle
  | Push_48 OperationPolicy 'a
  | Push_52 OperationPolicy 'a
  | Push_53 OperationPolicy 'a
  | Push_63_pred 'a
  | Push_63_wait 'a
  | Push_63_blocked 'a
  | Push_63_notified 'a
  | Push_65 'a
  | Push_70 'a
  | Push_73
  | Pop_81 OperationPolicy
  | Pop_86 OperationPolicy
  | Pop_87 OperationPolicy
  | Pop_97_pred
  | Pop_97_wait
  | Pop_97_blocked
  | Pop_97_notified
  | Pop_99
  | Pop_104
  | Pop_108 'a
  | Get_117 "'a \<Rightarrow> bool"
  | Get_122 "'a \<Rightarrow> bool"
  | Get_123 "'a \<Rightarrow> bool"
  | Get_134 'a
  | Close_142
  | Close_143
  | Close_144

text \<open>What a finished call gave back: a \<^verbatim>\<open>Result\<close>, or a pair of a message and a \<^verbatim>\<open>Result\<close>.\<close>

datatype 'a returned = Gave Result | GavePair 'a Result

text \<open>
  A thread: its control point, the calls it still has to make (its program), and what
  its finished calls returned, oldest first.
\<close>

record 'a thread =
  pc :: "'a pc"
  todo :: "'a operation list"
  returns :: "'a returned list"

text \<open>
  The system: the queue object, the owner of \<^verbatim>\<open>m_mtx\<close> if it is locked, and the threads,
  a thread's identifier being its position. The threads blocked on \<^verbatim>\<open>m_pushCv\<close> are
  those at \<open>Push_63_blocked\<close>, the threads blocked on \<^verbatim>\<open>m_popCv\<close> those at
  \<open>Pop_97_blocked\<close>.
\<close>

record 'a system =
  object :: "'a MessageQueue"
  m_mtx :: "nat option"
  threads :: "'a thread list"

definition boot :: "'a MessageQueue \<Rightarrow> 'a operation list list \<Rightarrow> 'a system" where
  "boot q programs =
     \<lparr>object = q, m_mtx = None,
      threads = map (\<lambda>program. \<lparr>pc = Idle, todo = program, returns = []\<rparr>) programs\<rparr>"

definition goto :: "nat \<Rightarrow> 'a pc \<Rightarrow> 'a system \<Rightarrow> 'a system" where
  "goto t l s = s\<lparr>threads := (threads s)[t := (threads s ! t)\<lparr>pc := l\<rparr>]\<rparr>"

definition return :: "nat \<Rightarrow> 'a returned \<Rightarrow> 'a system \<Rightarrow> 'a system" where
  "return t v s =
     s\<lparr>threads := (threads s)[t := (threads s ! t)\<lparr>pc := Idle, returns := returns (threads s ! t) @ [v]\<rparr>]\<rparr>"

definition lock :: "nat \<Rightarrow> 'a system \<Rightarrow> 'a system" where
  "lock t s = s\<lparr>m_mtx := Some t\<rparr>"

definition unlock :: "'a system \<Rightarrow> 'a system" where
  "unlock s = s\<lparr>m_mtx := None\<rparr>"

fun enter :: "'a operation \<Rightarrow> 'a pc" where
  "enter (DoPush Policy msg) = Push_48 Policy msg"
| "enter (DoPop Policy) = Pop_81 Policy"
| "enter (DoGet predicate) = Get_117 predicate"
| "enter DoClose = Close_142"

text \<open>The two condition variables, and the control point a notified thread goes to.\<close>

datatype condition_variable = m_popCv | m_pushCv

fun blocked_on :: "condition_variable \<Rightarrow> 'a pc \<Rightarrow> bool" where
  "blocked_on m_pushCv (Push_63_blocked msg) = True"
| "blocked_on m_popCv Pop_97_blocked = True"
| "blocked_on cv l = False"

fun notified :: "'a pc \<Rightarrow> 'a pc" where
  "notified (Push_63_blocked msg) = Push_63_notified msg"
| "notified Pop_97_blocked = Pop_97_notified"
| "notified l = l"

definition waiters :: "condition_variable \<Rightarrow> 'a system \<Rightarrow> nat list" where
  "waiters cv s = filter (\<lambda>w. blocked_on cv (pc (threads s ! w))) [0 ..< length (threads s)]"

definition notify_one :: "condition_variable \<Rightarrow> 'a system \<Rightarrow> 'a system list" where
  "notify_one cv s =
     (if waiters cv s = [] then [s]
      else map (\<lambda>w. goto w (notified (pc (threads s ! w))) s) (waiters cv s))"

definition notify_all :: "condition_variable \<Rightarrow> 'a system \<Rightarrow> 'a system" where
  "notify_all cv s =
     s\<lparr>threads := map (\<lambda>th. if blocked_on cv (pc th) then th\<lparr>pc := notified (pc th)\<rparr> else th) (threads s)\<rparr>"

text \<open>
  The states the system can be in after thread \<open>t\<close> has executed the statement at its
  control point: none when the thread cannot move (it waits for the mutex, it is blocked
  on a condition variable, or its program is finished), several only where
  \<^verbatim>\<open>notify_one\<close> has a choice.
\<close>

fun statement :: "nat \<Rightarrow> ('a::default) pc \<Rightarrow> 'a system \<Rightarrow> 'a system list" where
  "statement t Idle s =
     (case todo (threads s ! t) of
        [] \<Rightarrow> []
      | call # calls \<Rightarrow>
          [s\<lparr>threads := (threads s)[t := (threads s ! t)\<lparr>pc := enter call, todo := calls\<rparr>]\<rparr>])"
| "statement t (Push_48 Policy msg) s =
     [if IsClosed (object s) then return t (Gave Result.Closed) s
      else goto t (Push_52 Policy msg) s]"
| "statement t (Push_52 Policy msg) s =
     (if m_mtx s = None then [goto t (Push_53 Policy msg) (lock t s)] else [])"
| "statement t (Push_53 Policy msg) s =
     [if length (m_queue (object s)) = m_queueSize (object s) then
        (case Policy of
           NonBlocking \<Rightarrow> return t (Gave Full) (unlock s)
         | Blocking \<Rightarrow> goto t (Push_63_pred msg) s)
      else goto t (Push_70 msg) s]"
| "statement t (Push_63_pred msg) s =
     [if IsClosed (object s) \<or> length (m_queue (object s)) < m_queueSize (object s)
      then goto t (Push_65 msg) s
      else goto t (Push_63_wait msg) s]"
| "statement t (Push_63_wait msg) s = [goto t (Push_63_blocked msg) (unlock s)]"
| "statement t (Push_63_blocked msg) s = []"
| "statement t (Push_63_notified msg) s =
     (if m_mtx s = None then [goto t (Push_63_pred msg) (lock t s)] else [])"
| "statement t (Push_65 msg) s =
     [if IsClosed (object s) then return t (Gave Result.Closed) (unlock s)
      else goto t (Push_70 msg) s]"
| "statement t (Push_70 msg) s =
     [goto t Push_73 (unlock (s\<lparr>object := emplace_back msg (object s)\<rparr>))]"
| "statement t Push_73 s = map (return t (Gave Ok)) (notify_one m_popCv s)"
| "statement t (Pop_81 Policy) s =
     [if IsClosed (object s) then return t (GavePair default Result.Closed) s
      else goto t (Pop_86 Policy) s]"
| "statement t (Pop_86 Policy) s =
     (if m_mtx s = None then [goto t (Pop_87 Policy) (lock t s)] else [])"
| "statement t (Pop_87 Policy) s =
     [if m_queue (object s) = [] then
        (case Policy of
           NonBlocking \<Rightarrow> return t (GavePair default Empty) (unlock s)
         | Blocking \<Rightarrow> goto t Pop_97_pred s)
      else goto t Pop_104 s]"
| "statement t Pop_97_pred s =
     [if IsClosed (object s) \<or> m_queue (object s) \<noteq> []
      then goto t Pop_99 s
      else goto t Pop_97_wait s]"
| "statement t Pop_97_wait s = [goto t Pop_97_blocked (unlock s)]"
| "statement t Pop_97_blocked s = []"
| "statement t Pop_97_notified s =
     (if m_mtx s = None then [goto t Pop_97_pred (lock t s)] else [])"
| "statement t Pop_99 s =
     [if IsClosed (object s) then return t (GavePair default Result.Closed) (unlock s)
      else goto t Pop_104 s]"
| "statement t Pop_104 s =
     (case pop_front (m_queue (object s)) of
        Some (msg, rest) \<Rightarrow> [goto t (Pop_108 msg) (unlock (s\<lparr>object := (object s)\<lparr>m_queue := rest\<rparr>\<rparr>))]
      | None \<Rightarrow> [])"
| "statement t (Pop_108 msg) s = map (return t (GavePair msg Ok)) (notify_one m_pushCv s)"
| "statement t (Get_117 predicate) s =
     [if IsClosed (object s) then return t (GavePair default Result.Closed) s
      else goto t (Get_122 predicate) s]"
| "statement t (Get_122 predicate) s =
     (if m_mtx s = None then [goto t (Get_123 predicate) (lock t s)] else [])"
| "statement t (Get_123 predicate) s =
     [if m_queue (object s) = [] then return t (GavePair default Empty) (unlock s)
      else
        (let msgIt = find_if predicate (m_queue (object s)) in
         if msgIt = length (m_queue (object s)) then return t (GavePair default NotFound) (unlock s)
         else goto t (Get_134 (m_queue (object s) ! msgIt))
           (unlock (s\<lparr>object := (object s)\<lparr>m_queue := erase (m_queue (object s)) msgIt\<rparr>\<rparr>)))]"
| "statement t (Get_134 msg) s = map (return t (GavePair msg Ok)) (notify_one m_pushCv s)"
| "statement t Close_142 s = [goto t Close_143 (s\<lparr>object := (object s)\<lparr>m_state := State.Closed\<rparr>\<rparr>)]"
| "statement t Close_143 s = [goto t Close_144 (notify_all m_popCv s)]"
| "statement t Close_144 s = [return t (Gave Ok) (notify_all m_pushCv s)]"

definition thread_step :: "nat \<Rightarrow> ('a::default) system \<Rightarrow> 'a system list" where
  "thread_step t s = (if t < length (threads s) then statement t (pc (threads s ! t)) s else [])"

text \<open>
  A schedule is a list of pairs \<open>(t, k)\<close>: thread \<open>t\<close> makes a step, and where the step
  has several outcomes the \<open>k\<close>-th is taken. A schedule that asks for a step that cannot
  be made has no run.
\<close>

fun run :: "(nat \<times> nat) list \<Rightarrow> ('a::default) system \<Rightarrow> 'a system option" where
  "run [] s = Some s"
| "run ((t, k) # schedule) s =
     (if k < length (thread_step t s) then run schedule (thread_step t s ! k) else None)"

text \<open>
  The control points inside a block that holds \<^verbatim>\<open>lk\<close> locked (between the constructor of
  the \<^verbatim>\<open>std::unique_lock\<close> and the end of its block, the blocked part of \<^verbatim>\<open>wait\<close> left
  out), and what the code relies on at a control point: lines 65 and 99 are reached from a
  \<^verbatim>\<open>wait\<close> whose predicate held, line 70 needs room for one more message, line 104 a
  first message to take. A system is sound when the buffer is within its capacity, the
  mutex is owned by exactly the thread inside such a block, if any, and every thread
  finds what its control point relies on.
\<close>

fun holds_mutex :: "'a pc \<Rightarrow> bool" where
  "holds_mutex (Push_53 Policy msg) = True"
| "holds_mutex (Push_63_pred msg) = True"
| "holds_mutex (Push_63_wait msg) = True"
| "holds_mutex (Push_65 msg) = True"
| "holds_mutex (Push_70 msg) = True"
| "holds_mutex (Pop_87 Policy) = True"
| "holds_mutex Pop_97_pred = True"
| "holds_mutex Pop_97_wait = True"
| "holds_mutex Pop_99 = True"
| "holds_mutex Pop_104 = True"
| "holds_mutex (Get_123 predicate) = True"
| "holds_mutex l = False"

fun expects :: "'a pc \<Rightarrow> 'a MessageQueue \<Rightarrow> bool" where
  "expects (Push_65 msg) q = (IsClosed q \<or> length (m_queue q) < m_queueSize q)"
| "expects (Push_70 msg) q = (length (m_queue q) < m_queueSize q)"
| "expects Pop_99 q = (IsClosed q \<or> m_queue q \<noteq> [])"
| "expects Pop_104 q = (m_queue q \<noteq> [])"
| "expects l q = True"

definition sound :: "'a system \<Rightarrow> bool" where
  "sound s =
     (length (m_queue (object s)) \<le> m_queueSize (object s) \<and>
      (\<forall>t < length (threads s).
         holds_mutex (pc (threads s ! t)) = (m_mtx s = Some t) \<and>
         expects (pc (threads s ! t)) (object s)))"

text \<open>A system of one thread, with no call left to make, and the mutex free.\<close>

definition alone :: "'a MessageQueue \<Rightarrow> 'a pc \<Rightarrow> 'a returned list \<Rightarrow> 'a system" where
  "alone q l vs = \<lparr>object = q, m_mtx = None, threads = [\<lparr>pc = l, todo = [], returns = vs\<rparr>]\<rparr>"

section \<open>Construction\<close>

text \<open>
  C9. Construction fails with the invalid-argument fault exactly when the requested
  capacity is 0; for every positive capacity it succeeds and yields a running queue with
  an empty buffer and that capacity.
\<close>

theorem construction_fails_iff_zero:
  "((MessageQueue c :: error + 'a MessageQueue) = Inl invalid_argument \<longleftrightarrow> c = 0) \<and>
   (0 < c \<longrightarrow>
      (\<exists>q :: 'a MessageQueue. MessageQueue c = Inr q \<and> \<not> IsClosed q \<and> m_queue q = [] \<and>
         m_queueSize q = c))"
  by (simp add: MessageQueue_def IsClosed_def)

theorem construction_fails_iff_zero_witness:
  "(0::nat) < 2 \<and>
   (MessageQueue 2 :: error + string MessageQueue) =
     Inr \<lparr>m_queue = [], m_queueSize = 2, m_state = Running\<rparr> \<and>
   (MessageQueue 0 :: error + string MessageQueue) = Inl invalid_argument"
  using construction_fails_iff_zero [of 2, where ?'a = string]
    construction_fails_iff_zero [of 0, where ?'a = string]
  by (auto simp: MessageQueue_def)


section \<open>Single calls\<close>

lemma find_if_le: "find_if predicate xs \<le> length xs"
  by (induction xs) auto

lemma find_if_end_iff: "find_if predicate xs = length xs \<longleftrightarrow> (\<forall>x \<in> set xs. \<not> predicate x)"
proof (induction xs)
  case Nil
  show ?case by simp
next
  case (Cons x xs)
  have "find_if predicate xs \<le> length xs" by (rule find_if_le)
  with Cons show ?case by auto
qed

lemma find_if_first:
  "\<forall>y \<in> set ys. \<not> predicate y \<Longrightarrow> predicate x \<Longrightarrow> find_if predicate (ys @ x # zs) = length ys"
  by (induction ys) auto

lemma erase_middle: "erase (ys @ x # zs) (length ys) = ys @ zs"
  by (simp add: erase_def)

lemma erase_subseq: "subseq (erase xs i) xs"
proof -
  have "subseq (take i xs @ drop (Suc i) xs) (take i xs @ drop i xs)"
    unfolding subseq_append' by (cases "drop i xs") (simp_all add: drop_Suc tl_drop [symmetric] subseq_Cons')
  then show ?thesis by (simp add: erase_def)
qed

lemma erase_mset: "i < length xs \<Longrightarrow> mset (erase xs i) + {#xs ! i#} = mset xs"
proof -
  assume "i < length xs"
  then have "xs = take i xs @ xs ! i # drop (Suc i) xs" by (rule id_take_nth_drop)
  then have "mset xs = mset (take i xs @ xs ! i # drop (Suc i) xs)" by simp
  then show ?thesis by (simp add: erase_def)
qed

text \<open>
  C1. Close is terminal for every operation: on a queue whose state is closed, every
  \<^verbatim>\<open>Push\<close>, \<^verbatim>\<open>Pop\<close> and \<^verbatim>\<open>Get\<close>, of either policy, returns \<^verbatim>\<open>Closed\<close> and leaves the queue
  as it was, whatever the buffer holds; and the queue that \<^verbatim>\<open>Close\<close> leaves is closed.
\<close>

theorem closed_queue_rejects_every_call:
  "IsClosed (snd (Close q0)) \<and>
   (IsClosed q \<longrightarrow>
      Push Policy msg q = Returned (Result.Closed, q) \<and>
      Pop Policy q = Returned ((default, Result.Closed), q) \<and>
      Get predicate q = ((default, Result.Closed), q))"
  by (simp add: Close_def IsClosed_def Push_def Pop_def Get_def)

theorem closed_queue_rejects_every_call_witness:
  "IsClosed (snd (Close \<lparr>m_queue = [''A'', ''B''], m_queueSize = 2, m_state = Running\<rparr>)) \<and>
   Push Blocking ''C'' \<lparr>m_queue = [''A'', ''B''], m_queueSize = 2, m_state = State.Closed\<rparr> =
     Returned (Result.Closed, \<lparr>m_queue = [''A'', ''B''], m_queueSize = 2, m_state = State.Closed\<rparr>) \<and>
   Pop Blocking \<lparr>m_queue = [''A'', ''B''], m_queueSize = 2, m_state = State.Closed\<rparr> =
     Returned (([], Result.Closed), \<lparr>m_queue = [''A'', ''B''], m_queueSize = 2, m_state = State.Closed\<rparr>) \<and>
   Get (\<lambda>val. val = ''B'') \<lparr>m_queue = [''A'', ''B''], m_queueSize = 2, m_state = State.Closed\<rparr> =
     (([], Result.Closed), \<lparr>m_queue = [''A'', ''B''], m_queueSize = 2, m_state = State.Closed\<rparr>)"
proof -
  let ?fresh = "\<lparr>m_queue = [''A'', ''B''], m_queueSize = 2, m_state = Running\<rparr>"
  let ?shut = "\<lparr>m_queue = [''A'', ''B''], m_queueSize = 2, m_state = State.Closed\<rparr>"
  have closed: "IsClosed ?shut"
    by (simp add: IsClosed_def)
  from closed closed_queue_rejects_every_call [of ?fresh ?shut Blocking "''C''" "\<lambda>val. val = ''B''"]
  have "IsClosed (snd (Close ?fresh)) \<and> Push Blocking ''C'' ?shut = Returned (Result.Closed, ?shut) \<and>
      Pop Blocking ?shut = Returned ((default, Result.Closed), ?shut) \<and>
      Get (\<lambda>val. val = ''B'') ?shut = ((default, Result.Closed), ?shut)"
    by simp
  then show ?thesis
    by (simp add: default_list_def)
qed

text \<open>
  C4. The \<^verbatim>\<open>NonBlocking\<close> \<^verbatim>\<open>Push\<close> on a running queue: with the buffer at capacity it
  returns \<^verbatim>\<open>Full\<close> and the queue is unchanged; with the buffer below capacity it returns
  \<^verbatim>\<open>Ok\<close>, the message is the new last element, nothing else of the queue changes, and
  the buffer is longer by exactly one.
\<close>

theorem NonBlocking_Push_contract:
  "\<not> IsClosed q \<Longrightarrow>
   (length (m_queue q) = m_queueSize q \<longrightarrow> Push NonBlocking msg q = Returned (Full, q)) \<and>
   (length (m_queue q) < m_queueSize q \<longrightarrow>
      Push NonBlocking msg q = Returned (Ok, q\<lparr>m_queue := m_queue q @ [msg]\<rparr>) \<and>
      length (m_queue (q\<lparr>m_queue := m_queue q @ [msg]\<rparr>)) = length (m_queue q) + 1)"
  by (simp add: Push_def emplace_back_def)

theorem NonBlocking_Push_contract_witness:
  "\<not> IsClosed \<lparr>m_queue = [''A'', ''B''], m_queueSize = 2, m_state = Running\<rparr> \<and>
   Push NonBlocking ''C'' \<lparr>m_queue = [''A'', ''B''], m_queueSize = 2, m_state = Running\<rparr> =
     Returned (Full, \<lparr>m_queue = [''A'', ''B''], m_queueSize = 2, m_state = Running\<rparr>) \<and>
   \<not> IsClosed \<lparr>m_queue = [''A''], m_queueSize = 2, m_state = Running\<rparr> \<and>
   Push NonBlocking ''B'' \<lparr>m_queue = [''A''], m_queueSize = 2, m_state = Running\<rparr> =
     Returned (Ok, \<lparr>m_queue = [''A'', ''B''], m_queueSize = 2, m_state = Running\<rparr>)"
proof -
  have full: "\<not> IsClosed \<lparr>m_queue = [''A'', ''B''], m_queueSize = 2, m_state = Running\<rparr>"
    and room: "\<not> IsClosed \<lparr>m_queue = [''A''], m_queueSize = 2, m_state = Running\<rparr>"
    by (simp_all add: IsClosed_def)
  show ?thesis
    using full room NonBlocking_Push_contract [OF full, of "''C''"]
      NonBlocking_Push_contract [OF room, of "''B''"]
    by simp
qed

text \<open>
  C5. The \<^verbatim>\<open>NonBlocking\<close> \<^verbatim>\<open>Pop\<close> on a running queue: with an empty buffer it returns the
  default message with \<^verbatim>\<open>Empty\<close> and the queue is unchanged; with a non-empty buffer it
  returns the head with \<^verbatim>\<open>Ok\<close>, the buffer is left with the elements behind the head, and
  it is shorter by exactly one.
\<close>

theorem NonBlocking_Pop_contract:
  "\<not> IsClosed q \<Longrightarrow>
   (m_queue q = [] \<longrightarrow> Pop NonBlocking q = Returned ((default, Empty), q)) \<and>
   (\<forall>head rest. m_queue q = head # rest \<longrightarrow>
      Pop NonBlocking q = Returned ((head, Ok), q\<lparr>m_queue := rest\<rparr>) \<and>
      length (m_queue (q\<lparr>m_queue := rest\<rparr>)) + 1 = length (m_queue q))"
  by (simp add: Pop_def Pop_take_def)

theorem NonBlocking_Pop_contract_witness:
  "\<not> IsClosed \<lparr>m_queue = ([] :: string list), m_queueSize = 2, m_state = Running\<rparr> \<and>
   Pop NonBlocking \<lparr>m_queue = [], m_queueSize = 2, m_state = Running\<rparr> =
     Returned (([], Empty), \<lparr>m_queue = ([] :: string list), m_queueSize = 2, m_state = Running\<rparr>) \<and>
   \<not> IsClosed \<lparr>m_queue = [''A'', ''B''], m_queueSize = 2, m_state = Running\<rparr> \<and>
   Pop NonBlocking \<lparr>m_queue = [''A'', ''B''], m_queueSize = 2, m_state = Running\<rparr> =
     Returned ((''A'', Ok), \<lparr>m_queue = [''B''], m_queueSize = 2, m_state = Running\<rparr>)"
proof -
  have none: "\<not> IsClosed \<lparr>m_queue = ([] :: string list), m_queueSize = 2, m_state = Running\<rparr>"
    and two: "\<not> IsClosed \<lparr>m_queue = [''A'', ''B''], m_queueSize = 2, m_state = Running\<rparr>"
    by (simp_all add: IsClosed_def)
  show ?thesis
    using none two NonBlocking_Pop_contract [OF none] NonBlocking_Pop_contract [OF two]
    by (simp add: default_list_def)
qed

text \<open>
  C6. \<^verbatim>\<open>Get\<close> on a running queue: on the empty buffer it returns \<^verbatim>\<open>Empty\<close>; when no element
  satisfies the predicate it returns \<^verbatim>\<open>NotFound\<close> and the queue is unchanged; otherwise,
  with \<open>x\<close> the first element from the head that satisfies the predicate, \<open>ys\<close> the
  elements before it and \<open>zs\<close> those behind it, it returns \<open>x\<close> with \<^verbatim>\<open>Ok\<close> and leaves
  exactly \<open>ys @ zs\<close>: one element is removed and the others keep their order.
\<close>

theorem Get_contract:
  "\<not> IsClosed q \<Longrightarrow>
   (m_queue q = [] \<longrightarrow> Get predicate q = ((default, Empty), q)) \<and>
   (m_queue q \<noteq> [] \<and> (\<forall>y \<in> set (m_queue q). \<not> predicate y) \<longrightarrow>
      Get predicate q = ((default, NotFound), q)) \<and>
   (\<forall>ys x zs. m_queue q = ys @ x # zs \<and> (\<forall>y \<in> set ys. \<not> predicate y) \<and> predicate x \<longrightarrow>
      Get predicate q = ((x, Ok), q\<lparr>m_queue := ys @ zs\<rparr>))"
proof (intro conjI impI allI)
  assume "\<not> IsClosed q" and "m_queue q = []"
  then show "Get predicate q = ((default, Empty), q)"
    by (simp add: Get_def)
next
  assume "\<not> IsClosed q" and none: "m_queue q \<noteq> [] \<and> (\<forall>y \<in> set (m_queue q). \<not> predicate y)"
  from none have "find_if predicate (m_queue q) = length (m_queue q)"
    by (simp add: find_if_end_iff)
  with \<open>\<not> IsClosed q\<close> none show "Get predicate q = ((default, NotFound), q)"
    by (simp add: Get_def)
next
  fix ys x zs
  assume "\<not> IsClosed q"
    and found: "m_queue q = ys @ x # zs \<and> (\<forall>y \<in> set ys. \<not> predicate y) \<and> predicate x"
  then have at: "find_if predicate (m_queue q) = length ys"
    by (simp add: find_if_first)
  from found have "erase (m_queue q) (length ys) = ys @ zs" and "m_queue q ! length ys = x"
    by (simp_all add: erase_middle)
  with \<open>\<not> IsClosed q\<close> found at show "Get predicate q = ((x, Ok), q\<lparr>m_queue := ys @ zs\<rparr>)"
    by (simp add: Get_def)
qed

theorem Get_contract_witness:
  "\<not> IsClosed \<lparr>m_queue = [''1'', ''3'', ''2'', ''3''], m_queueSize = 4, m_state = Running\<rparr> \<and>
   Get (\<lambda>val. val = ''3'') \<lparr>m_queue = [''1'', ''3'', ''2'', ''3''], m_queueSize = 4, m_state = Running\<rparr> =
     ((''3'', Ok), \<lparr>m_queue = [''1'', ''2'', ''3''], m_queueSize = 4, m_state = Running\<rparr>) \<and>
   Get (\<lambda>val. val = ''4'') \<lparr>m_queue = [''1'', ''3'', ''2'', ''3''], m_queueSize = 4, m_state = Running\<rparr> =
     (([], NotFound), \<lparr>m_queue = [''1'', ''3'', ''2'', ''3''], m_queueSize = 4, m_state = Running\<rparr>)"
proof -
  let ?q = "\<lparr>m_queue = [''1'', ''3'', ''2'', ''3''], m_queueSize = 4, m_state = Running\<rparr>"
  have running: "\<not> IsClosed ?q"
    by (simp add: IsClosed_def)
  have "m_queue ?q = [''1''] @ ''3'' # [''2'', ''3''] \<and>
      (\<forall>y \<in> set [''1'']. \<not> y = ''3'') \<and> ''3'' = ''3''"
    by simp
  with Get_contract [OF running, of "\<lambda>val. val = ''3''"]
  have hit: "Get (\<lambda>val. val = ''3'') ?q = ((''3'', Ok), ?q\<lparr>m_queue := [''1''] @ [''2'', ''3'']\<rparr>)"
    by blast
  have "m_queue ?q \<noteq> [] \<and> (\<forall>y \<in> set (m_queue ?q). \<not> y = ''4'')"
    by simp
  with Get_contract [OF running, of "\<lambda>val. val = ''4''"]
  have miss: "Get (\<lambda>val. val = ''4'') ?q = ((default, NotFound), ?q)"
    by blast
  from running hit miss show ?thesis
    by (simp add: default_list_def)
qed

lemma Pop_take_Ok: "Pop_take q = Returned ((msg, r), q') \<Longrightarrow> r = Ok"
  by (cases "m_queue q") (auto simp: Pop_take_def)

lemma Pop_failed: "Pop Policy q = Returned ((msg, r), q') \<Longrightarrow> r \<noteq> Ok \<Longrightarrow>
      msg = default \<and> r \<in> {Empty, Result.Closed}"
  unfolding Pop_def Pop_wait_def
  by (cases Policy; cases "IsClosed q"; cases "m_queue q = []") (auto dest: Pop_take_Ok)

lemma Get_failed: "Get predicate q = ((msg, r), q') \<Longrightarrow> r \<noteq> Ok \<Longrightarrow>
      msg = default \<and> r \<in> {Empty, NotFound, Result.Closed}"
  unfolding Get_def Let_def
  by (cases "IsClosed q"; cases "m_queue q = []"; cases "find_if predicate (m_queue q) = length (m_queue q)") auto

text \<open>
  C10. Whenever \<^verbatim>\<open>Pop\<close> or \<^verbatim>\<open>Get\<close> returns a result other than \<^verbatim>\<open>Ok\<close> (it is then
  \<^verbatim>\<open>Empty\<close>, \<^verbatim>\<open>NotFound\<close> or \<^verbatim>\<open>Closed\<close>), the message of the returned pair is the
  default-constructed one. The functions exist for message types of sort \<open>default\<close> only:
  the payload type has to be default-constructible.
\<close>

theorem failed_removal_returns_default_message:
  "(Pop Policy q = Returned ((msg, r), q') \<and> r \<noteq> Ok \<longrightarrow>
      msg = default \<and> r \<in> {Empty, Result.Closed}) \<and>
   (Get predicate q = ((msg, r), q') \<and> r \<noteq> Ok \<longrightarrow>
      msg = default \<and> r \<in> {Empty, NotFound, Result.Closed})"
  using Pop_failed [of Policy q msg r q'] Get_failed [of predicate q msg r q'] by blast

theorem failed_removal_returns_default_message_witness:
  "Pop NonBlocking \<lparr>m_queue = [], m_queueSize = 2, m_state = Running\<rparr> =
     Returned (((default :: string), Empty), \<lparr>m_queue = [], m_queueSize = 2, m_state = Running\<rparr>) \<and>
   Empty \<noteq> Ok \<and> (default :: string) = [] \<and>
   Get (\<lambda>val. val = ''3'') \<lparr>m_queue = [''1''], m_queueSize = 2, m_state = Running\<rparr> =
     (((default :: string), NotFound), \<lparr>m_queue = [''1''], m_queueSize = 2, m_state = Running\<rparr>)"
proof -
  let ?none = "\<lparr>m_queue = ([] :: string list), m_queueSize = 2, m_state = Running\<rparr>"
  let ?one = "\<lparr>m_queue = [''1''], m_queueSize = 2, m_state = Running\<rparr>"
  have pop: "Pop NonBlocking ?none = Returned ((([] :: string), Empty), ?none)"
    by (simp add: Pop_def IsClosed_def default_list_def)
  have get: "Get (\<lambda>val. val = ''3'') ?one = ((([] :: string), NotFound), ?one)"
    by (simp add: Get_def IsClosed_def default_list_def)
  have ne: "Empty \<noteq> Ok" "NotFound \<noteq> Ok"
    by simp_all
  from failed_removal_returns_default_message [of NonBlocking ?none "[]" Empty ?none]
    pop ne(1)
  have d: "([] :: string) = default"
    by blast
  from failed_removal_returns_default_message
    [of NonBlocking ?one "[]" NotFound ?one "\<lambda>val. val = ''3''"] get ne(2)
  have "([] :: string) = default"
    by blast
  show ?thesis
    unfolding d [symmetric] using pop get by simp
qed

section \<open>Sequences of calls\<close>

lemma Push_cases:
  obtains (appended) "length (m_queue q) \<noteq> m_queueSize q" "\<not> IsClosed q"
      "Push Policy msg q = Returned (Ok, q\<lparr>m_queue := m_queue q @ [msg]\<rparr>)"
  | (refused) r where "r \<noteq> Ok" "Push Policy msg q = Returned (r, q)"
  | (blocked) "Push Policy msg q = Blocked"
  by (cases Policy; cases "IsClosed q"; cases "length (m_queue q) = m_queueSize q")
    (auto simp: Push_def Push_wait_def emplace_back_def)

lemma Pop_cases:
  obtains (taken) msg rest where "m_queue q = msg # rest" "\<not> IsClosed q"
      "Pop Policy q = Returned ((msg, Ok), q\<lparr>m_queue := rest\<rparr>)"
  | (refused) r where "r \<noteq> Ok" "Pop Policy q = Returned ((default, r), q)"
  | (blocked) "Pop Policy q = Blocked"
  by (cases Policy; cases "IsClosed q"; cases "m_queue q")
    (auto simp: Pop_def Pop_wait_def Pop_take_def)

lemma calls_defined: "Push Policy msg q \<noteq> Undefined" "Pop Policy q \<noteq> Undefined"
proof -
  show "Push Policy msg q \<noteq> Undefined"
    by (rule Push_cases [of q Policy msg]) simp_all
  show "Pop Policy q \<noteq> Undefined"
    by (rule Pop_cases [of q Policy]) simp_all
qed

text \<open>
  A thread woken in \<^verbatim>\<open>wait\<close> goes on as \<open>Push_wait\<close> and \<open>Pop_wait\<close> say. On a queue within
  its capacity that is what a fresh \<^verbatim>\<open>Blocking\<close> call does, so the lists of calls below
  need no separate entry for a woken thread.
\<close>

lemma woken_is_a_later_call:
  "length (m_queue q) \<le> m_queueSize q \<Longrightarrow> Push_wait msg q = Push Blocking msg q"
  "Pop_wait q = Pop Blocking (q :: ('a::default) MessageQueue)"
  by (auto simp: Push_def Push_wait_def Pop_def Pop_wait_def)

lemma Get_cases:
  obtains (extracted) i where "i < length (m_queue q)" "\<not> IsClosed q"
      "Get predicate q = ((m_queue q ! i, Ok), q\<lparr>m_queue := erase (m_queue q) i\<rparr>)"
  | (refused) r where "r \<noteq> Ok" "Get predicate q = ((default, r), q)"
proof (cases "IsClosed q \<or> m_queue q = [] \<or> find_if predicate (m_queue q) = length (m_queue q)")
  case True
  then have "\<exists>r. r \<noteq> Ok \<and> Get predicate q = ((default, r), q)"
    by (auto simp: Get_def)
  with refused show ?thesis by blast
next
  case False
  moreover have "find_if predicate (m_queue q) \<le> length (m_queue q)"
    by (rule find_if_le)
  ultimately have "find_if predicate (m_queue q) < length (m_queue q)"
    by simp
  with False extracted [of "find_if predicate (m_queue q)"] show ?thesis
    by (simp add: Get_def Let_def)
qed

lemma perform_cases [case_names unchanged push pop get close]:
  obtains "perform operation h = h"
  | msg where "length (m_queue (queue h)) \<noteq> m_queueSize (queue h)"
      "perform operation h =
         h\<lparr>queue := (queue h)\<lparr>m_queue := m_queue (queue h) @ [msg]\<rparr>, pushed := pushed h @ [msg]\<rparr>"
  | msg rest where "m_queue (queue h) = msg # rest"
      "perform operation h = h\<lparr>queue := (queue h)\<lparr>m_queue := rest\<rparr>, popped := popped h @ [msg]\<rparr>"
  | i where "i < length (m_queue (queue h))"
      "perform operation h =
         h\<lparr>queue := (queue h)\<lparr>m_queue := erase (m_queue (queue h)) i\<rparr>,
           got := got h @ [m_queue (queue h) ! i]\<rparr>"
  | "perform operation h = h\<lparr>queue := (queue h)\<lparr>m_state := State.Closed\<rparr>\<rparr>"
proof (cases operation)
  case (DoPush Policy msg)
  show ?thesis
    by (rule Push_cases [of "queue h" Policy msg]) (use DoPush that in auto)
next
  case (DoPop Policy)
  show ?thesis
    by (rule Pop_cases [of "queue h" Policy]) (use DoPop that in auto)
next
  case (DoGet predicate)
  show ?thesis
    by (rule Get_cases [of "queue h" predicate]) (use DoGet that in auto)
next
  case DoClose
  with that(5) show ?thesis
    by (simp add: Close_def)
qed

lemma closed_perform: "IsClosed (queue h) \<Longrightarrow> perform operation h = h"
  by (cases operation) (simp_all add: Push_def Pop_def Get_def Close_def IsClosed_def)

lemma closed_perform_all: "IsClosed (queue h) \<Longrightarrow> perform_all operations h = h"
  by (induction operations) (simp_all add: closed_perform)


lemma length_erase: "length (erase xs i) \<le> length xs"
  by (simp add: erase_def)

lemma perform_capacity:
  assumes "length (m_queue (queue h)) \<le> m_queueSize (queue h)"
  shows "length (m_queue (queue (perform operation h))) \<le> m_queueSize (queue (perform operation h))"
proof (cases operation h rule: perform_cases)
  case (get i)
  with assms length_erase [of "m_queue (queue h)" i] show ?thesis
    by simp
qed (use assms in auto)

lemma perform_queueSize: "m_queueSize (queue (perform operation h)) = m_queueSize (queue h)"
  by (cases operation h rule: perform_cases) auto

lemma perform_all_capacity:
  "length (m_queue (queue h)) \<le> m_queueSize (queue h) \<Longrightarrow>
   length (m_queue (queue (perform_all operations h))) \<le> m_queueSize (queue (perform_all operations h))"
  by (induction operations arbitrary: h) (simp_all add: perform_capacity)

lemma perform_all_queueSize: "m_queueSize (queue (perform_all operations h)) = m_queueSize (queue h)"
  by (induction operations arbitrary: h) (simp_all add: perform_queueSize)

text \<open>The three relations between what was pushed, popped, taken by Get and left.\<close>

lemma perform_exact:
  assumes "got h = [] \<longrightarrow> b @ pushed h = popped h @ m_queue (queue h)"
  shows "got (perform operation h) = [] \<longrightarrow>
    b @ pushed (perform operation h) = popped (perform operation h) @ m_queue (queue (perform operation h))"
  by (cases operation h rule: perform_cases) (use assms in auto)

lemma perform_subseq:
  assumes "subseq (popped h @ m_queue (queue h)) (b @ pushed h)"
  shows "subseq (popped (perform operation h) @ m_queue (queue (perform operation h)))
    (b @ pushed (perform operation h))"
proof (cases operation h rule: perform_cases)
  case (push msg)
  from assms have "subseq ((popped h @ m_queue (queue h)) @ [msg]) ((b @ pushed h) @ [msg])"
    by (rule list_emb_append_mono) simp
  with push show ?thesis
    by simp
next
  case (get i)
  have "subseq (popped h @ erase (m_queue (queue h)) i) (popped h @ m_queue (queue h))"
    by (simp add: subseq_append' erase_subseq)
  with assms have "subseq (popped h @ erase (m_queue (queue h)) i) (b @ pushed h)"
    by (rule subseq_order.trans [rotated])
  with get show ?thesis
    by simp
qed (use assms in auto)

lemma perform_mset:
  assumes "mset (b @ pushed h) = mset (popped h) + mset (got h) + mset (m_queue (queue h))"
  shows "mset (b @ pushed (perform operation h)) =
    mset (popped (perform operation h)) + mset (got (perform operation h)) +
    mset (m_queue (queue (perform operation h)))"
proof (cases operation h rule: perform_cases)
  case (get i)
  with assms erase_mset [of i "m_queue (queue h)"] show ?thesis
    by (simp add: ac_simps)
qed (use assms in auto)

lemma perform_all_exact:
  "got h = [] \<longrightarrow> b @ pushed h = popped h @ m_queue (queue h) \<Longrightarrow>
   got (perform_all operations h) = [] \<longrightarrow>
     b @ pushed (perform_all operations h) =
     popped (perform_all operations h) @ m_queue (queue (perform_all operations h))"
proof (induction operations arbitrary: h)
  case Nil
  then show ?case by simp
next
  case (Cons operation operations)
  from Cons.prems have "got (perform operation h) = [] \<longrightarrow>
    b @ pushed (perform operation h) = popped (perform operation h) @ m_queue (queue (perform operation h))"
    by (rule perform_exact)
  then show ?case
    using Cons.IH [of "perform operation h"] by simp
qed

lemma perform_all_subseq:
  "subseq (popped h @ m_queue (queue h)) (b @ pushed h) \<Longrightarrow>
   subseq (popped (perform_all operations h) @ m_queue (queue (perform_all operations h)))
     (b @ pushed (perform_all operations h))"
  by (induction operations arbitrary: h) (simp_all add: perform_subseq)

lemma perform_all_mset:
  "mset (b @ pushed h) = mset (popped h) + mset (got h) + mset (m_queue (queue h)) \<Longrightarrow>
   mset (b @ pushed (perform_all operations h)) =
     mset (popped (perform_all operations h)) + mset (got (perform_all operations h)) +
     mset (m_queue (queue (perform_all operations h)))"
proof (induction operations arbitrary: h)
  case Nil
  then show ?case by simp
next
  case (Cons operation operations)
  from Cons.prems have "mset (b @ pushed (perform operation h)) =
    mset (popped (perform operation h)) + mset (got (perform operation h)) +
    mset (m_queue (queue (perform operation h)))"
    by (rule perform_mset)
  then show ?case
    using Cons.IH [of "perform operation h"] by simp
qed

lemmas call_defs =
  Push_def Push_wait_def Pop_def Pop_wait_def Pop_take_def Get_def Close_def IsClosed_def
  emplace_back_def erase_def start_def Let_def default_list_def

text \<open>
  C3. The capacity bound: on a queue constructed with capacity \<open>c\<close>, after any number
  \<open>n\<close> of the calls of any list of \<^verbatim>\<open>Push\<close>, \<^verbatim>\<open>Pop\<close>, \<^verbatim>\<open>Get\<close> and \<^verbatim>\<open>Close\<close> calls (that is,
  in every state the list passes through) the buffer holds at most \<open>c\<close> messages.
\<close>

theorem capacity_bound:
  "MessageQueue c = Inr q \<Longrightarrow>
   length (m_queue (queue (perform_all (take n operations) (start q)))) \<le> c"
proof -
  assume "MessageQueue c = Inr q"
  then have "m_queue q = []" and "m_queueSize q = c"
    by (auto simp: MessageQueue_def split: if_splits)
  then have "length (m_queue (queue (start q))) \<le> m_queueSize (queue (start q))"
    and "m_queueSize (queue (start q)) = c"
    by (simp_all add: start_def)
  with perform_all_capacity [of "start q" "take n operations"]
    perform_all_queueSize [of "take n operations" "start q"]
  show ?thesis
    by simp
qed

theorem capacity_bound_witness:
  "(MessageQueue 2 :: error + string MessageQueue) =
     Inr \<lparr>m_queue = [], m_queueSize = 2, m_state = Running\<rparr> \<and>
   length (m_queue (queue (perform_all
     (take 3 [DoPush NonBlocking ''A'', DoPush NonBlocking ''B'', DoPush NonBlocking ''C''])
     (start \<lparr>m_queue = [], m_queueSize = 2, m_state = Running\<rparr>)))) \<le> 2 \<and>
   m_queue (queue (perform_all
     (take 3 [DoPush NonBlocking ''A'', DoPush NonBlocking ''B'', DoPush NonBlocking ''C''])
     (start \<lparr>m_queue = [], m_queueSize = 2, m_state = Running\<rparr>))) = [''A'', ''B'']"
proof -
  have made: "(MessageQueue 2 :: error + string MessageQueue) =
      Inr \<lparr>m_queue = [], m_queueSize = 2, m_state = Running\<rparr>"
    by (simp add: MessageQueue_def)
  have "m_queue (queue (perform_all
      (take 3 [DoPush NonBlocking ''A'', DoPush NonBlocking ''B'', DoPush NonBlocking ''C''])
      (start \<lparr>m_queue = [], m_queueSize = 2, m_state = Running\<rparr>))) = [''A'', ''B'']"
    by (simp add: call_defs)
  with made capacity_bound [OF made, of 3
      "[DoPush NonBlocking ''A'', DoPush NonBlocking ''B'', DoPush NonBlocking ''C'']"]
  show ?thesis
    by blast
qed

text \<open>
  C2, as stated, fails: the messages returned by \<^verbatim>\<open>Pop\<close> are not in general all the
  messages accepted by \<^verbatim>\<open>Push\<close>. After the single call \<^verbatim>\<open>Push("A")\<close> on a new queue of
  capacity 2, one message has been accepted and none has been returned: it is still in
  the buffer.
\<close>

theorem popped_equals_pushed_counterexample:
  "popped (perform_all [DoPush NonBlocking ''A'']
     (start \<lparr>m_queue = [], m_queueSize = 2, m_state = Running\<rparr>)) \<noteq>
   pushed (perform_all [DoPush NonBlocking ''A'']
     (start \<lparr>m_queue = [], m_queueSize = 2, m_state = Running\<rparr>))"
  by (simp add: call_defs)

text \<open>
  C2, amended. FIFO order: for every list of calls on a queue, the messages returned
  by the successful \<^verbatim>\<open>Pop\<close> calls, followed by the messages left in the buffer, are
  \<^item> equal to the messages the buffer held at first followed by the messages accepted by
    the successful \<^verbatim>\<open>Push\<close> calls, when no \<^verbatim>\<open>Get\<close> has extracted a message: on a queue
    that was empty at first the popped messages are a prefix of the accepted ones, in
    insertion order, and equal to them when the buffer is empty again;
  \<^item> in every case a subsequence of them, in the same order, and what is missing is, as a
    multiset, exactly what the successful \<^verbatim>\<open>Get\<close> calls returned.
\<close>

theorem fifo_order:
  assumes "h = perform_all operations (start q)"
  shows "(got h = [] \<longrightarrow> m_queue q @ pushed h = popped h @ m_queue (queue h)) \<and>
    (got h = [] \<and> m_queue q = [] \<longrightarrow>
       prefix (popped h) (pushed h) \<and> (m_queue (queue h) = [] \<longrightarrow> popped h = pushed h)) \<and>
    subseq (popped h @ m_queue (queue h)) (m_queue q @ pushed h) \<and>
    mset (m_queue q @ pushed h) = mset (popped h) + mset (got h) + mset (m_queue (queue h))"
proof -
  have exact: "got h = [] \<longrightarrow> m_queue q @ pushed h = popped h @ m_queue (queue h)"
    unfolding assms by (rule perform_all_exact) (simp add: start_def)
  then have "got h = [] \<and> m_queue q = [] \<longrightarrow>
      prefix (popped h) (pushed h) \<and> (m_queue (queue h) = [] \<longrightarrow> popped h = pushed h)"
    by (auto simp: prefix_def)
  moreover have "subseq (popped h @ m_queue (queue h)) (m_queue q @ pushed h)"
    unfolding assms by (rule perform_all_subseq) (simp add: start_def)
  moreover have "mset (m_queue q @ pushed h) =
      mset (popped h) + mset (got h) + mset (m_queue (queue h))"
    unfolding assms by (rule perform_all_mset) (simp add: start_def)
  ultimately show ?thesis
    using exact by blast
qed

theorem fifo_order_witness:
  "got (perform_all [DoPush NonBlocking ''A'', DoPush Blocking ''B'', DoPush NonBlocking ''C'',
       DoPop Blocking, DoPop NonBlocking]
     (start \<lparr>m_queue = [], m_queueSize = 2, m_state = Running\<rparr>)) = [] \<and>
   m_queue \<lparr>m_queue = ([] :: string list), m_queueSize = 2, m_state = Running\<rparr> = [] \<and>
   m_queue (queue (perform_all [DoPush NonBlocking ''A'', DoPush Blocking ''B'',
       DoPush NonBlocking ''C'', DoPop Blocking, DoPop NonBlocking]
     (start \<lparr>m_queue = [], m_queueSize = 2, m_state = Running\<rparr>))) = [] \<and>
   pushed (perform_all [DoPush NonBlocking ''A'', DoPush Blocking ''B'', DoPush NonBlocking ''C'',
       DoPop Blocking, DoPop NonBlocking]
     (start \<lparr>m_queue = [], m_queueSize = 2, m_state = Running\<rparr>)) = [''A'', ''B''] \<and>
   popped (perform_all [DoPush NonBlocking ''A'', DoPush Blocking ''B'', DoPush NonBlocking ''C'',
       DoPop Blocking, DoPop NonBlocking]
     (start \<lparr>m_queue = [], m_queueSize = 2, m_state = Running\<rparr>)) = [''A'', ''B'']"
proof -
  let ?q = "\<lparr>m_queue = ([] :: string list), m_queueSize = 2, m_state = Running\<rparr>"
  let ?h = "perform_all [DoPush NonBlocking ''A'', DoPush Blocking ''B'', DoPush NonBlocking ''C'',
       DoPop Blocking, DoPop NonBlocking] (start ?q)"
  have none: "got ?h = []" and first: "m_queue ?q = []" and last: "m_queue (queue ?h) = []"
    and p: "pushed ?h = [''A'', ''B'']"
    by (simp_all add: call_defs)
  from fifo_order [OF refl, of "[DoPush NonBlocking ''A'', DoPush Blocking ''B'',
       DoPush NonBlocking ''C'', DoPop Blocking, DoPop NonBlocking]" ?q] none first last
  have "popped ?h = pushed ?h"
    by blast
  with none first last p show ?thesis
    by simp
qed

text \<open>
  C8. \<^verbatim>\<open>Close\<close> returns \<^verbatim>\<open>Ok\<close> in every state (it has no other return and throws
  nothing) and sets the state to closed; a second \<^verbatim>\<open>Close\<close> yields the same result and
  the same queue as the first; and from a closed queue no list of \<^verbatim>\<open>Push\<close>, \<^verbatim>\<open>Pop\<close>,
  \<^verbatim>\<open>Get\<close> and \<^verbatim>\<open>Close\<close> calls leads to a queue that is not closed.
\<close>

theorem Close_idempotent_and_irreversible:
  "Close q = (Ok, q\<lparr>m_state := State.Closed\<rparr>) \<and>
   Close (snd (Close q)) = Close q \<and>
   (IsClosed (queue h) \<longrightarrow> IsClosed (queue (perform_all operations h)))"
  by (simp add: Close_def closed_perform_all)

theorem Close_idempotent_and_irreversible_witness:
  "IsClosed (queue (start (snd (Close \<lparr>m_queue = [''A''], m_queueSize = 2, m_state = Running\<rparr>)))) \<and>
   IsClosed (queue (perform_all
     [DoPush NonBlocking ''B'', DoPop NonBlocking, DoGet (\<lambda>val. val = ''A''), DoClose, DoPop Blocking]
     (start (snd (Close \<lparr>m_queue = [''A''], m_queueSize = 2, m_state = Running\<rparr>)))))"
proof -
  let ?h = "start (snd (Close \<lparr>m_queue = [''A''], m_queueSize = 2, m_state = Running\<rparr>))"
  have closed: "IsClosed (queue ?h)"
    by (simp add: call_defs)
  with Close_idempotent_and_irreversible [of _ ?h
      "[DoPush NonBlocking ''B'', DoPop NonBlocking, DoGet (\<lambda>val. val = ''A''), DoClose, DoPop Blocking]"]
  show ?thesis
    by blast
qed

section \<open>Threads\<close>

subsection \<open>A thread on its own does what the call does\<close>

text \<open>
  The two embeddings agree: when one thread makes one call and no other thread exists,
  the statements of the call, executed one after the other, end with the value and the
  queue that the function of the first part gives for the call, or with the thread blocked
  where that function says \<open>Blocked\<close>.
\<close>

lemmas solo_defs =
  thread_step_def goto_def return_def lock_def unlock_def notify_one_def waiters_def boot_def
  alone_def

lemma solo_Push:
  "\<exists>schedule. run schedule (boot q [[DoPush Policy msg]]) =
     Some (case Push Policy msg q of
             Returned (r, q') \<Rightarrow> alone q' Idle [Gave r]
           | _ \<Rightarrow> alone q (Push_63_blocked msg) [])"
proof -
  define after where "after =
    (case Push Policy msg q of
       Returned (r, q') \<Rightarrow> alone q' Idle [Gave r]
     | _ \<Rightarrow> alone q (Push_63_blocked msg) [])"
  consider (closed) "IsClosed q"
    | (room) "\<not> IsClosed q" "length (m_queue q) \<noteq> m_queueSize q"
    | (full) "\<not> IsClosed q" "length (m_queue q) = m_queueSize q" "Policy = NonBlocking"
    | (wait) "\<not> IsClosed q" "length (m_queue q) = m_queueSize q" "Policy = Blocking"
    by (cases Policy) auto
  then have "\<exists>schedule. run schedule (boot q [[DoPush Policy msg]]) = Some after"
  proof cases
    case closed
    then have "run [(0, 0), (0, 0)] (boot q [[DoPush Policy msg]]) = Some after"
      by (simp add: after_def Push_def solo_defs)
    then show ?thesis ..
  next
    case room
    then have "run [(0, 0), (0, 0), (0, 0), (0, 0), (0, 0), (0, 0)] (boot q [[DoPush Policy msg]]) =
        Some after"
      by (simp add: after_def Push_def solo_defs)
    then show ?thesis ..
  next
    case full
    then have "run [(0, 0), (0, 0), (0, 0), (0, 0)] (boot q [[DoPush Policy msg]]) = Some after"
      by (simp add: after_def Push_def solo_defs)
    then show ?thesis ..
  next
    case wait
    then have "run [(0, 0), (0, 0), (0, 0), (0, 0), (0, 0), (0, 0)] (boot q [[DoPush Policy msg]]) =
        Some after"
      by (simp add: after_def Push_def Push_wait_def solo_defs)
    then show ?thesis ..
  qed
  then show ?thesis
    by (simp only: after_def)
qed

lemma solo_Pop:
  "\<exists>schedule. run schedule (boot q [[DoPop Policy]]) =
     Some (case Pop Policy q of
             Returned ((msg, r), q') \<Rightarrow> alone q' Idle [GavePair msg r]
           | _ \<Rightarrow> alone q Pop_97_blocked [])"
proof -
  define after where "after =
    (case Pop Policy q of
       Returned ((msg, r), q') \<Rightarrow> alone q' Idle [GavePair msg r]
     | _ \<Rightarrow> alone q Pop_97_blocked [])"
  consider (closed) "IsClosed q"
    | (some) msg rest where "\<not> IsClosed q" "m_queue q = msg # rest"
    | (none) "\<not> IsClosed q" "m_queue q = []" "Policy = NonBlocking"
    | (wait) "\<not> IsClosed q" "m_queue q = []" "Policy = Blocking"
    by (cases Policy; cases "m_queue q") auto
  then have "\<exists>schedule. run schedule (boot q [[DoPop Policy]]) = Some after"
  proof cases
    case closed
    then have "run [(0, 0), (0, 0)] (boot q [[DoPop Policy]]) = Some after"
      by (simp add: after_def Pop_def solo_defs)
    then show ?thesis ..
  next
    case some
    then have "run [(0, 0), (0, 0), (0, 0), (0, 0), (0, 0), (0, 0)] (boot q [[DoPop Policy]]) =
        Some after"
      by (simp add: after_def Pop_def Pop_take_def solo_defs)
    then show ?thesis ..
  next
    case none
    then have "run [(0, 0), (0, 0), (0, 0), (0, 0)] (boot q [[DoPop Policy]]) = Some after"
      by (simp add: after_def Pop_def solo_defs)
    then show ?thesis ..
  next
    case wait
    then have "run [(0, 0), (0, 0), (0, 0), (0, 0), (0, 0), (0, 0)] (boot q [[DoPop Policy]]) =
        Some after"
      by (simp add: after_def Pop_def Pop_wait_def solo_defs)
    then show ?thesis ..
  qed
  then show ?thesis
    by (simp only: after_def)
qed

lemma solo_Get:
  "\<exists>schedule. run schedule (boot q [[DoGet predicate]]) =
     Some (case Get predicate q of ((msg, r), q') \<Rightarrow> alone q' Idle [GavePair msg r])"
proof -
  define after where "after =
    (case Get predicate q of ((msg, r), q') \<Rightarrow> alone q' Idle [GavePair msg r])"
  consider (closed) "IsClosed q"
    | (found) "\<not> IsClosed q" "m_queue q \<noteq> []" "find_if predicate (m_queue q) \<noteq> length (m_queue q)"
    | (none) "\<not> IsClosed q" "m_queue q = [] \<or> find_if predicate (m_queue q) = length (m_queue q)"
    by auto
  then have "\<exists>schedule. run schedule (boot q [[DoGet predicate]]) = Some after"
  proof cases
    case closed
    then have "run [(0, 0), (0, 0)] (boot q [[DoGet predicate]]) = Some after"
      by (simp add: after_def Get_def solo_defs)
    then show ?thesis ..
  next
    case found
    then have "run [(0, 0), (0, 0), (0, 0), (0, 0), (0, 0)] (boot q [[DoGet predicate]]) = Some after"
      by (simp add: after_def Get_def Let_def solo_defs)
    then show ?thesis ..
  next
    case none
    then have "run [(0, 0), (0, 0), (0, 0), (0, 0)] (boot q [[DoGet predicate]]) = Some after"
      by (auto simp: after_def Get_def Let_def solo_defs)
    then show ?thesis ..
  qed
  then show ?thesis
    by (simp only: after_def)
qed

lemma solo_Close:
  "run [(0, 0), (0, 0), (0, 0), (0, 0)] (boot q [[DoClose]]) =
     Some (case Close q of (r, q') \<Rightarrow> alone q' Idle [Gave r])"
  by (simp add: Close_def solo_defs notify_all_def)

subsection \<open>What every interleaving keeps\<close>

text \<open>
  Soundness (defined with the thread model above) holds at the start and is kept by every
  statement of every thread, so it holds in every state a schedule can reach.
\<close>

lemma expects_outside: "\<not> holds_mutex l \<Longrightarrow> expects l q"
  by (cases l) simp_all

lemma expects_closed: "expects l q \<Longrightarrow> expects l (q\<lparr>m_state := State.Closed\<rparr>)"
  by (cases l) (simp_all add: IsClosed_def)

lemma blocked_outside: "blocked_on cv l \<Longrightarrow> \<not> holds_mutex l \<and> \<not> holds_mutex (notified l)"
  by (cases l; cases cv) simp_all

lemma goto_fields [simp]:
  "object (goto t l s) = object s"
  "m_mtx (goto t l s) = m_mtx s"
  "length (threads (goto t l s)) = length (threads s)"
  by (simp_all add: goto_def)

lemma goto_pc [simp]:
  "u < length (threads s) \<Longrightarrow> pc (threads (goto t l s) ! u) = (if u = t then l else pc (threads s ! u))"
  by (simp add: goto_def nth_list_update)

lemma return_fields [simp]:
  "object (return t v s) = object s"
  "m_mtx (return t v s) = m_mtx s"
  "length (threads (return t v s)) = length (threads s)"
  by (simp_all add: return_def)

lemma return_pc [simp]:
  "u < length (threads s) \<Longrightarrow> pc (threads (return t v s) ! u) = (if u = t then Idle else pc (threads s ! u))"
  by (simp add: return_def nth_list_update)

lemma lock_fields [simp]:
  "object (lock t s) = object s"
  "m_mtx (lock t s) = Some t"
  "threads (lock t s) = threads s"
  by (simp_all add: lock_def)

lemma unlock_fields [simp]:
  "object (unlock s) = object s"
  "m_mtx (unlock s) = None"
  "threads (unlock s) = threads s"
  by (simp_all add: unlock_def)

lemma notify_all_fields [simp]:
  "object (notify_all cv s) = object s"
  "m_mtx (notify_all cv s) = m_mtx s"
  "length (threads (notify_all cv s)) = length (threads s)"
  by (simp_all add: notify_all_def)

lemma notify_all_pc:
  "u < length (threads s) \<Longrightarrow>
   pc (threads (notify_all cv s) ! u) =
     (if blocked_on cv (pc (threads s ! u)) then notified (pc (threads s ! u)) else pc (threads s ! u))"
  by (simp add: notify_all_def)

lemma notify_one_fields:
  assumes "s' \<in> set (notify_one cv s)"
  shows "object s' = object s" and "m_mtx s' = m_mtx s" and "length (threads s') = length (threads s)"
  using assms by (auto simp: notify_one_def split: if_splits)

lemma notify_one_pc:
  assumes "s' \<in> set (notify_one cv s)" and "u < length (threads s)"
  shows "pc (threads s' ! u) = pc (threads s ! u) \<or>
    blocked_on cv (pc (threads s ! u)) \<and> pc (threads s' ! u) = notified (pc (threads s ! u))"
  using assms by (auto simp: notify_one_def waiters_def split: if_splits)

text \<open>One step keeps the system sound when it fits one of three shapes.\<close>

lemma sound_after:
  assumes s: "sound s" and t: "t < length (threads s)"
    and len: "length (threads s') = length (threads s)"
    and others: "\<And>u. u < length (threads s) \<Longrightarrow> u \<noteq> t \<Longrightarrow>
      pc (threads s' ! u) = pc (threads s ! u) \<or>
      \<not> holds_mutex (pc (threads s ! u)) \<and> \<not> holds_mutex (pc (threads s' ! u))"
    and cap: "length (m_queue (object s')) \<le> m_queueSize (object s')"
    and mine: "holds_mutex (pc (threads s' ! t)) = (m_mtx s' = Some t)"
      "expects (pc (threads s' ! t)) (object s')"
    and shape:
      "m_mtx s' = m_mtx s \<and>
         (object s' = object s \<or> object s' = (object s)\<lparr>m_state := State.Closed\<rparr>) \<or>
       m_mtx s = None \<and> m_mtx s' = Some t \<and> object s' = object s \<or>
       m_mtx s = Some t \<and> m_mtx s' = None"
  shows "sound s'"
  unfolding sound_def
proof (intro conjI allI impI)
  show "length (m_queue (object s')) \<le> m_queueSize (object s')"
    by (rule cap)
next
  fix u
  assume "u < length (threads s')"
  with len have u: "u < length (threads s)"
    by simp
  with s have was: "holds_mutex (pc (threads s ! u)) = (m_mtx s = Some u)"
    "expects (pc (threads s ! u)) (object s)"
    by (simp_all add: sound_def)
  show "holds_mutex (pc (threads s' ! u)) = (m_mtx s' = Some u)"
  proof (cases "u = t")
    case True
    with mine show ?thesis by simp
  next
    case False
    with others [OF u] was(1) shape show ?thesis
      by auto
  qed
  show "expects (pc (threads s' ! u)) (object s')"
  proof (cases "u = t")
    case True
    with mine show ?thesis by simp
  next
    case False
    from others [OF u False] show ?thesis
    proof
      assume same: "pc (threads s' ! u) = pc (threads s ! u)"
      from shape show ?thesis
      proof (elim disjE conjE)
        assume "object s' = object s"
        with same was show ?thesis by simp
      next
        assume "object s' = (object s)\<lparr>m_state := State.Closed\<rparr>"
        with same was expects_closed [of "pc (threads s ! u)" "object s"] show ?thesis by simp
      next
        assume "m_mtx s = None" "object s' = object s"
        with same was show ?thesis by simp
      next
        assume "m_mtx s = Some t"
        with was False have "\<not> holds_mutex (pc (threads s ! u))" by simp
        with same show ?thesis by (simp add: expects_outside)
      qed
    next
      assume "\<not> holds_mutex (pc (threads s ! u)) \<and> \<not> holds_mutex (pc (threads s' ! u))"
      then show ?thesis by (simp add: expects_outside)
    qed
  qed
qed

lemma enter_outside [simp]: "\<not> holds_mutex (enter call)" "expects (enter call) q"
  by (cases call; simp)+

lemma pop_front_Some: "pop_front xs = Some (x, rest) \<longleftrightarrow> xs = x # rest"
  by (cases xs) auto

lemma sound_notify_one:
  assumes s: "sound s" and t: "t < length (threads s)"
    and out: "\<not> holds_mutex (pc (threads s ! t))"
    and x: "x \<in> set (notify_one cv s)"
  shows "sound (return t v x)"
proof (rule sound_after [OF s t])
  note same = notify_one_fields [OF x]
  from same t show "length (threads (return t v x)) = length (threads s)"
    by simp
  from s same show "length (m_queue (object (return t v x))) \<le> m_queueSize (object (return t v x))"
    by (simp add: sound_def)
  from s t out have "m_mtx s \<noteq> Some t"
    by (simp add: sound_def)
  with same t show "holds_mutex (pc (threads (return t v x) ! t)) = (m_mtx (return t v x) = Some t)"
    by simp
  from same t show "expects (pc (threads (return t v x) ! t)) (object (return t v x))"
    by simp
  from same show "m_mtx (return t v x) = m_mtx s \<and>
      (object (return t v x) = object s \<or>
       object (return t v x) = (object s)\<lparr>m_state := State.Closed\<rparr>) \<or>
    m_mtx s = None \<and> m_mtx (return t v x) = Some t \<and> object (return t v x) = object s \<or>
    m_mtx s = Some t \<and> m_mtx (return t v x) = None"
    by simp
next
  fix u
  assume u: "u < length (threads s)" and "u \<noteq> t"
  with notify_one_fields(3) [OF x] have "pc (threads (return t v x) ! u) = pc (threads x ! u)"
    by simp
  with notify_one_pc [OF x u] blocked_outside [of cv "pc (threads s ! u)"]
  show "pc (threads (return t v x) ! u) = pc (threads s ! u) \<or>
    \<not> holds_mutex (pc (threads s ! u)) \<and> \<not> holds_mutex (pc (threads (return t v x) ! u))"
    by auto
qed

lemma sound_step:
  assumes s: "sound s" and t: "t < length (threads s)"
    and step: "s' \<in> set (statement t (pc (threads s ! t)) s)"
  shows "sound s'"
proof -
  from s t have cap: "length (m_queue (object s)) \<le> m_queueSize (object s)"
    and mine: "holds_mutex (pc (threads s ! t)) = (m_mtx s = Some t)"
      "expects (pc (threads s ! t)) (object s)"
    by (simp_all add: sound_def)
  show ?thesis
  proof (cases "pc (threads s ! t)")
    case Push_73
    with step mine s t show ?thesis
      by (auto intro: sound_notify_one)
  next
    case (Pop_108 msg)
    with step mine s t show ?thesis
      by (auto intro: sound_notify_one)
  next
    case (Get_134 msg)
    with step mine s t show ?thesis
      by (auto intro: sound_notify_one)
  next
    case Pop_104
    with step cap mine t show ?thesis
      by (auto intro!: sound_after [OF s t] simp: pop_front_Some eq_commute [of "Some x" for x]
          split: option.splits)
  next
    case (Get_123 predicate)
    with step cap mine t length_erase [of "m_queue (object s)" "find_if predicate (m_queue (object s))"]
    show ?thesis
      by (auto intro!: sound_after [OF s t] simp: Let_def split: if_splits)
  next
    case Close_143
    with step cap mine t show ?thesis
      by (auto intro!: sound_after [OF s t] simp: notify_all_pc split: if_splits dest: blocked_outside)
  next
    case Close_144
    with step cap mine t show ?thesis
      by (auto intro!: sound_after [OF s t] simp: notify_all_pc split: if_splits dest: blocked_outside)
  qed (use step cap mine t in
      \<open>auto intro!: sound_after [OF s t] simp: IsClosed_def emplace_back_def
        split: list.splits if_splits OperationPolicy.splits\<close>)
qed

lemma sound_boot: "length (m_queue q) \<le> m_queueSize q \<Longrightarrow> sound (boot q programs)"
  by (simp add: sound_def boot_def)

lemma sound_thread_step: "sound s \<Longrightarrow> s' \<in> set (thread_step t s) \<Longrightarrow> sound s'"
  by (auto simp: thread_step_def split: if_splits intro: sound_step)

lemma sound_run: "sound s \<Longrightarrow> run schedule s = Some s' \<Longrightarrow> sound s'"
proof (induction schedule s rule: run.induct)
  case (1 s)
  then show ?case by simp
next
  case (2 t k schedule s)
  from "2.prems"(2) have k: "k < length (thread_step t s)"
    and rest: "run schedule (thread_step t s ! k) = Some s'"
    by (simp_all split: if_splits)
  from k have "thread_step t s ! k \<in> set (thread_step t s)"
    by simp
  with "2.prems"(1) have "sound (thread_step t s ! k)"
    by (rule sound_thread_step)
  with "2.IH" k rest show ?case
    by simp
qed

lemma statement_queueSize:
  "t < length (threads s) \<Longrightarrow> s' \<in> set (statement t l s) \<Longrightarrow>
   m_queueSize (object s') = m_queueSize (object s)"
  by (cases l)
    (auto simp: notify_one_fields emplace_back_def Let_def split: list.splits if_splits OperationPolicy.splits option.splits)

lemma run_queueSize: "run schedule s = Some s' \<Longrightarrow> m_queueSize (object s') = m_queueSize (object s)"
proof (induction schedule s rule: run.induct)
  case (1 s)
  then show ?case by simp
next
  case (2 t k schedule s)
  from "2.prems" have k: "k < length (thread_step t s)"
    and rest: "run schedule (thread_step t s ! k) = Some s'"
    by (simp_all split: if_splits)
  from k have "thread_step t s ! k \<in> set (thread_step t s)"
    by simp
  then have "m_queueSize (object (thread_step t s ! k)) = m_queueSize (object s)"
    by (auto simp: thread_step_def split: if_splits intro: statement_queueSize)
  with "2.IH" k rest show ?case
    by simp
qed

lemma statement_stays_closed:
  "t < length (threads s) \<Longrightarrow> s' \<in> set (statement t l s) \<Longrightarrow> IsClosed (object s) \<Longrightarrow>
   IsClosed (object s')"
  by (cases l)
    (auto simp: notify_one_fields emplace_back_def IsClosed_def Let_def
      split: list.splits if_splits OperationPolicy.splits option.splits)

lemma run_stays_closed: "run schedule s = Some s' \<Longrightarrow> IsClosed (object s) \<Longrightarrow> IsClosed (object s')"
proof (induction schedule s rule: run.induct)
  case (1 s)
  then show ?case by simp
next
  case (2 t k schedule s)
  from "2.prems"(1) have k: "k < length (thread_step t s)"
    and rest: "run schedule (thread_step t s ! k) = Some s'"
    by (simp_all split: if_splits)
  from k have "thread_step t s ! k \<in> set (thread_step t s)"
    by simp
  with "2.prems"(2) have "IsClosed (object (thread_step t s ! k))"
    by (auto simp: thread_step_def split: if_splits intro: statement_stays_closed)
  with "2.IH" k rest show ?case
    by simp
qed

text \<open>
  In every state that any schedule reaches from a newly constructed queue, whatever the
  programs of the threads: the buffer is within the capacity, at most one thread is inside
  a locked block, and line 104 finds a first message.
\<close>

lemma threads_capacity_bound:
  assumes "MessageQueue c = Inr q" and "run schedule (boot q programs) = Some s"
  shows "length (m_queue (object s)) \<le> c"
proof -
  from assms(1) have q: "m_queue q = []" "m_queueSize q = c"
    by (auto simp: MessageQueue_def split: if_splits)
  then have "sound (boot q programs)"
    by (simp add: sound_boot)
  then have "sound s"
    using assms(2) by (rule sound_run)
  moreover from assms(2) have "m_queueSize (object s) = m_queueSize (object (boot q programs))"
    by (rule run_queueSize)
  ultimately show ?thesis
    using q by (simp add: sound_def boot_def)
qed

lemma mutual_exclusion:
  assumes "sound s" and "t < length (threads s)" and "u < length (threads s)"
    and "holds_mutex (pc (threads s ! t))" and "holds_mutex (pc (threads s ! u))"
  shows "t = u"
  using assms by (auto simp: sound_def)

lemma Pop_104_never_empty:
  assumes "sound s" and "t < length (threads s)" and "pc (threads s ! t) = Pop_104"
  shows "m_queue (object s) \<noteq> []"
  using assms by (auto simp: sound_def)

subsection \<open>Close and the calls around it\<close>

lemmas thread_defs =
  thread_step_def goto_def return_def lock_def unlock_def notify_one_def notify_all_def
  waiters_def boot_def IsClosed_def emplace_back_def erase_def Let_def upt_rec

text \<open>
  A call that a thread enters on a closed queue returns \<^verbatim>\<open>Closed\<close> with its first
  statement, whatever the other threads are doing: it takes no lock and touches nothing.
\<close>

lemma closed_call_returns_at_once:
  assumes "IsClosed (object s)" and "t < length (threads s)"
  shows "thread_step t (goto t (enter (DoPush Policy msg)) s) =
      [return t (Gave Result.Closed) (goto t (enter (DoPush Policy msg)) s)]"
    and "thread_step t (goto t (enter (DoPop Policy)) s) =
      [return t (GavePair default Result.Closed) (goto t (enter (DoPop Policy)) s)]"
    and "thread_step t (goto t (enter (DoGet predicate)) s) =
      [return t (GavePair default Result.Closed) (goto t (enter (DoGet predicate)) s)]"
  using assms by (simp_all add: thread_step_def)

text \<open>
  A call that has passed its first test before \<^verbatim>\<open>Close\<close> starts is not such a call: here a
  \<^verbatim>\<open>Push\<close> has found the queue running, \<^verbatim>\<open>Close\<close> then runs and returns, and the \<^verbatim>\<open>Push\<close>
  still appends its message and returns \<^verbatim>\<open>Ok\<close>.
\<close>

lemma Push_in_flight_appends_after_Close:
  "run [(0, 0), (0, 0), (1, 0), (1, 0), (1, 0), (1, 0), (0, 0), (0, 0), (0, 0), (0, 0)]
     (boot \<lparr>m_queue = [], m_queueSize = 1, m_state = Running\<rparr>
        [[DoPush NonBlocking ''A''], [DoClose]]) =
   Some \<lparr>object = \<lparr>m_queue = [''A''], m_queueSize = 1, m_state = State.Closed\<rparr>, m_mtx = None,
      threads = [\<lparr>pc = Idle, todo = [], returns = [Gave Ok]\<rparr>,
                 \<lparr>pc = Idle, todo = [], returns = [Gave Ok]\<rparr>]\<rparr>"
  by (simp add: thread_defs)

text \<open>
  When the thread is blocked in \<^verbatim>\<open>wait\<close> before \<^verbatim>\<open>Close\<close> starts, \<^verbatim>\<open>notify_all\<close> reaches
  it: it takes the mutex again, finds the predicate true and returns \<^verbatim>\<open>Closed\<close>.
\<close>

lemma Close_releases_a_blocked_Pop:
  "run [(0, 0), (0, 0), (0, 0), (0, 0), (0, 0), (0, 0), (1, 0), (1, 0), (1, 0), (1, 0),
        (0, 0), (0, 0), (0, 0)]
     (boot \<lparr>m_queue = [], m_queueSize = 1, m_state = Running\<rparr> [[DoPop Blocking], [DoClose]]) =
   Some \<lparr>object = \<lparr>m_queue = [], m_queueSize = 1, m_state = State.Closed\<rparr>, m_mtx = None,
      threads = [\<lparr>pc = Idle, todo = [], returns = [GavePair '''' Result.Closed]\<rparr>,
                 \<lparr>pc = Idle, todo = [], returns = [Gave Ok]\<rparr>]\<rparr>"
  by (simp add: thread_defs default_list_def)

lemma Close_releases_a_blocked_Push:
  "run [(0, 0), (0, 0), (0, 0), (0, 0), (0, 0), (0, 0), (1, 0), (1, 0), (1, 0), (1, 0),
        (0, 0), (0, 0), (0, 0)]
     (boot \<lparr>m_queue = [''X''], m_queueSize = 1, m_state = Running\<rparr>
        [[DoPush Blocking ''Y''], [DoClose]]) =
   Some \<lparr>object = \<lparr>m_queue = [''X''], m_queueSize = 1, m_state = State.Closed\<rparr>, m_mtx = None,
      threads = [\<lparr>pc = Idle, todo = [], returns = [Gave Result.Closed]\<rparr>,
                 \<lparr>pc = Idle, todo = [], returns = [Gave Ok]\<rparr>]\<rparr>"
  by (simp add: thread_defs default_list_def)

lemma blocked_Pop_is_stuck:
  "thread_step t \<lparr>object = \<lparr>m_queue = ([] :: string list), m_queueSize = 1, m_state = State.Closed\<rparr>,
      m_mtx = None,
      threads = [\<lparr>pc = Pop_97_blocked, todo = [], returns = []\<rparr>,
                 \<lparr>pc = Idle, todo = [], returns = [Gave Ok]\<rparr>]\<rparr> = []"
  by (cases t; simp add: thread_defs; cases "t - 1"; simp)

lemma blocked_Push_is_stuck:
  "thread_step t \<lparr>object = \<lparr>m_queue = [''X''], m_queueSize = 1, m_state = State.Closed\<rparr>,
      m_mtx = None,
      threads = [\<lparr>pc = Push_63_blocked ''Y'', todo = [], returns = []\<rparr>,
                 \<lparr>pc = Idle, todo = [], returns = [Gave Ok]\<rparr>]\<rparr> = []"
  by (cases t; simp add: thread_defs; cases "t - 1"; simp)

text \<open>
  C7 asks that a thread suspended in a \<^verbatim>\<open>Blocking\<close> \<^verbatim>\<open>Pop\<close> (queue empty) or a
  \<^verbatim>\<open>Blocking\<close> \<^verbatim>\<open>Push\<close> (queue full) is released and returns \<^verbatim>\<open>Closed\<close> once another thread
  has called \<^verbatim>\<open>Close\<close>, so that no thread stays blocked forever. The code does not give this.
  \<^verbatim>\<open>Close\<close> stores the closed state without holding \<^verbatim>\<open>m_mtx\<close>, so the whole of it can run
  between the moment a thread has evaluated the predicate of its \<^verbatim>\<open>wait\<close> (false: running,
  and nothing to pop or no room to push) and the moment it blocks. The two
  \<^verbatim>\<open>notify_all\<close> then find no blocked thread, and the thread blocks after them.

  The theorem runs exactly this schedule on a queue of capacity 1, once with a thread in
  \<^verbatim>\<open>Pop<Blocking>\<close> on the empty queue and once with a thread in \<^verbatim>\<open>Push<Blocking>\<close> on the full
  queue, the other thread calling \<^verbatim>\<open>Close\<close>. In the state reached, \<^verbatim>\<open>Close\<close> has returned
  \<^verbatim>\<open>Ok\<close>, the queue is closed, the first thread is blocked in its condition variable, and
  no thread has a step left: the blocked call never returns.
\<close>

theorem Close_can_leave_a_thread_blocked_forever:
  "run [(0, 0), (0, 0), (0, 0), (0, 0), (0, 0), (1, 0), (1, 0), (1, 0), (1, 0), (0, 0)]
     (boot \<lparr>m_queue = [], m_queueSize = 1, m_state = Running\<rparr> [[DoPop Blocking], [DoClose]]) =
   Some \<lparr>object = \<lparr>m_queue = ([] :: string list), m_queueSize = 1, m_state = State.Closed\<rparr>,
      m_mtx = None,
      threads = [\<lparr>pc = Pop_97_blocked, todo = [], returns = []\<rparr>,
                 \<lparr>pc = Idle, todo = [], returns = [Gave Ok]\<rparr>]\<rparr> \<and>
   (\<forall>t. thread_step t
      \<lparr>object = \<lparr>m_queue = ([] :: string list), m_queueSize = 1, m_state = State.Closed\<rparr>,
       m_mtx = None,
       threads = [\<lparr>pc = Pop_97_blocked, todo = [], returns = []\<rparr>,
                  \<lparr>pc = Idle, todo = [], returns = [Gave Ok]\<rparr>]\<rparr> = []) \<and>
   run [(0, 0), (0, 0), (0, 0), (0, 0), (0, 0), (1, 0), (1, 0), (1, 0), (1, 0), (0, 0)]
     (boot \<lparr>m_queue = [''X''], m_queueSize = 1, m_state = Running\<rparr>
        [[DoPush Blocking ''Y''], [DoClose]]) =
   Some \<lparr>object = \<lparr>m_queue = [''X''], m_queueSize = 1, m_state = State.Closed\<rparr>,
      m_mtx = None,
      threads = [\<lparr>pc = Push_63_blocked ''Y'', todo = [], returns = []\<rparr>,
                 \<lparr>pc = Idle, todo = [], returns = [Gave Ok]\<rparr>]\<rparr> \<and>
   (\<forall>t. thread_step t
      \<lparr>object = \<lparr>m_queue = [''X''], m_queueSize = 1, m_state = State.Closed\<rparr>,
       m_mtx = None,
       threads = [\<lparr>pc = Push_63_blocked ''Y'', todo = [], returns = []\<rparr>,
                  \<lparr>pc = Idle, todo = [], returns = [Gave Ok]\<rparr>]\<rparr> = [])"
proof (intro conjI allI)
  show "run [(0, 0), (0, 0), (0, 0), (0, 0), (0, 0), (1, 0), (1, 0), (1, 0), (1, 0), (0, 0)]
     (boot \<lparr>m_queue = [], m_queueSize = 1, m_state = Running\<rparr> [[DoPop Blocking], [DoClose]]) =
   Some \<lparr>object = \<lparr>m_queue = ([] :: string list), m_queueSize = 1, m_state = State.Closed\<rparr>,
      m_mtx = None,
      threads = [\<lparr>pc = Pop_97_blocked, todo = [], returns = []\<rparr>,
                 \<lparr>pc = Idle, todo = [], returns = [Gave Ok]\<rparr>]\<rparr>"
    by (simp add: thread_defs)
  show "run [(0, 0), (0, 0), (0, 0), (0, 0), (0, 0), (1, 0), (1, 0), (1, 0), (1, 0), (0, 0)]
     (boot \<lparr>m_queue = [''X''], m_queueSize = 1, m_state = Running\<rparr>
        [[DoPush Blocking ''Y''], [DoClose]]) =
   Some \<lparr>object = \<lparr>m_queue = [''X''], m_queueSize = 1, m_state = State.Closed\<rparr>,
      m_mtx = None,
      threads = [\<lparr>pc = Push_63_blocked ''Y'', todo = [], returns = []\<rparr>,
                 \<lparr>pc = Idle, todo = [], returns = [Gave Ok]\<rparr>]\<rparr>"
    by (simp add: thread_defs)
qed (rule blocked_Pop_is_stuck blocked_Push_is_stuck)+

end
